theory Spec2Isabelle
  imports Main "HOL-Library.List_Lexorder" "HOL-Library.Multiset" "HOL-Library.Sublist"
begin

section \<open>Data model\<close>

text \<open>
  A Python \<open>str\<close> is a sequence of Unicode code points; it is modelled as a list of
  natural numbers, so that \<open>length\<close> counts what Python's \<open>len\<close> counts. Strings are
  ordered lexicographically by code point (\<open>HOL-Library.List_Lexorder\<close>), which is
  the order Python's \<open><\<close> on \<open>str\<close> and therefore \<open>list.sort\<close> use.
\<close>

type_synonym pystr = "nat list"

text \<open>An ASCII literal as a Python string.\<close>

definition str_of :: "string \<Rightarrow> pystr" where
  "str_of s = map of_char s"

text \<open>
  The methods \<open>str.lower\<close>, \<open>str.casefold\<close> and \<open>str.upper\<close> are built into Python
  and driven by the Unicode tables. The functions below take them as parameters
  (\<open>lower\<close>, \<open>casefold\<close>, \<open>upper\<close>), so that every general theorem holds for whatever
  these methods compute. On strings of ASCII characters, \<open>str.lower\<close> and
  \<open>str.casefold\<close> both map \<open>A..Z\<close> to \<open>a..z\<close> and \<open>str.upper\<close> maps \<open>a..z\<close> to \<open>A..Z\<close>;
  \<open>ascii_lower\<close> and \<open>ascii_upper\<close> are these restrictions and are used at the
  concrete ASCII inputs only.
\<close>

definition ascii_lower :: "pystr \<Rightarrow> pystr" where
  "ascii_lower s = map (\<lambda>c. if 65 \<le> c \<and> c \<le> 90 then c + 32 else c) s"

definition ascii_upper :: "pystr \<Rightarrow> pystr" where
  "ascii_upper s = map (\<lambda>c. if 97 \<le> c \<and> c \<le> 122 then c - 32 else c) s"

text \<open>
  Modelled from the spec: the enumeration \<open>Modifier\<close> of \<open>keys.py\<close> (left and right
  control, shift, alt and meta). The generator names \<open>Modifier.LShift\<close> and
  \<open>Modifier.RShift\<close> only.
\<close>

datatype Modifier = LCtrl | LShift | LAlt | LGui | RCtrl | RShift | RAlt | RGui

text \<open>
  Modelled from the spec: the class \<open>HidUsage\<close> of \<open>keys.py\<close>, built in the generator
  as \<open>HidUsage(modifiers, page, id)\<close> with a \<open>frozenset\<close> of modifiers, and compared
  by value. The field \<open>id\<close> is named \<open>id_u\<close> here.
\<close>

record HidUsage =
  modifiers :: "Modifier set"
  page :: int
  id_u :: int

text \<open>A definition is the pair \<open>(usage, value)\<close> of the generator.\<close>

type_synonym keydef = "HidUsage \<times> pystr"

text \<open>The exceptions the modelled code can raise.\<close>

datatype error = KeyError | ValueError | TypeError | RecursionError

section \<open>The same-usage pass\<close>

text \<open>
  Modelled from the spec: the helper \<open>unique(iterable, key)\<close> that the generator
  imports from \<open>util.py\<close>. By the specification of pass 1 it keeps, of the items
  that share a key, only the first one encountered and discards the rest; the items
  kept stay in their order. It is written as the loop over the items that remembers
  the keys it has seen.
\<close>

fun unique_from :: "'k set \<Rightarrow> 'a list \<Rightarrow> ('a \<Rightarrow> 'k) \<Rightarrow> 'a list" where
  "unique_from seen [] key = []"
| "unique_from seen (x # xs) key =
     (if key x \<in> seen then unique_from seen xs key
      else x # unique_from (insert (key x) seen) xs key)"

definition unique :: "'a list \<Rightarrow> ('a \<Rightarrow> 'k) \<Rightarrow> 'a list" where
  "unique xs key = unique_from {} xs key"

definition dedupe_same_usage :: "keydef list \<Rightarrow> keydef list" where
  "dedupe_same_usage defs = unique defs fst"

section \<open>The uppercase-shift pass\<close>

definition has_shift :: "Modifier set \<Rightarrow> bool" where
  "has_shift mods = (LShift \<in> mods \<or> RShift \<in> mods)"

definition remove_shift :: "Modifier set \<Rightarrow> Modifier set" where
  "remove_shift mods = mods - {LShift, RShift}"

text \<open>The local function \<open>is_duplicate_uppercase\<close>, with its free variable \<open>base_defs\<close>.\<close>

definition is_duplicate_uppercase :: "(pystr \<Rightarrow> pystr) \<Rightarrow> keydef list \<Rightarrow> keydef \<Rightarrow> bool" where
  "is_duplicate_uppercase casefold base_defs a =
     (if \<not> has_shift (modifiers (fst a)) then False
      else (let base_mods = remove_shift (modifiers (fst a))
            in list_ex (\<lambda>b. casefold (snd a) = casefold (snd b) \<and> base_mods = modifiers (fst b))
                 base_defs))"

definition dedupe_uppercase :: "(pystr \<Rightarrow> pystr) \<Rightarrow> keydef list \<Rightarrow> keydef list" where
  "dedupe_uppercase casefold defs =
     (let base_defs = filter (\<lambda>d. modifiers (fst d) = {}) defs;
          mod_defs = filter (\<lambda>d. modifiers (fst d) \<noteq> {}) defs;
          mod_defs' = filter (\<lambda>d. \<not> is_duplicate_uppercase casefold base_defs d) mod_defs
      in base_defs @ mod_defs')"

section \<open>The same-character pass\<close>

text \<open>
  Python's \<open>min(seq, key=...)\<close>: the first item whose key is minimal; it raises
  \<open>ValueError\<close> on an empty sequence.
\<close>

fun py_min :: "('a \<Rightarrow> nat) \<Rightarrow> 'a list \<Rightarrow> error + 'a" where
  "py_min key [] = Inl ValueError"
| "py_min key (x # xs) = Inr (fold (\<lambda>y best. if key y < key best then y else best) xs x)"

definition shortest_mods :: "HidUsage list \<Rightarrow> error + HidUsage" where
  "shortest_mods seq = py_min (\<lambda>x. card (modifiers x)) seq"

text \<open>
  The \<open>defaultdict(list)\<close> named \<open>d\<close> is an association list in insertion order, which
  is the order \<open>d.items()\<close> iterates in. \<open>append_value d value usage\<close> is the statement
  \<open>d[value].append(usage)\<close>: a missing key is inserted at the end with a fresh list.
\<close>

fun append_value :: "(pystr \<times> HidUsage list) list \<Rightarrow> pystr \<Rightarrow> HidUsage \<Rightarrow> (pystr \<times> HidUsage list) list" where
  "append_value [] value usage = [(value, [usage])]"
| "append_value ((k, v) # d) value usage =
     (if k = value then (k, v @ [usage]) # d else (k, v) # append_value d value usage)"

definition group_by_value :: "keydef list \<Rightarrow> (pystr \<times> HidUsage list) list" where
  "group_by_value defs = fold (\<lambda>(usage, value) d. append_value d value usage) defs []"

text \<open>The list comprehension \<open>[(shortest_mods(v), k) for k, v in d.items()]\<close>.\<close>

fun collect_shortest :: "(pystr \<times> HidUsage list) list \<Rightarrow> error + keydef list" where
  "collect_shortest [] = Inr []"
| "collect_shortest ((k, v) # d) =
     (case shortest_mods v of
        Inl e \<Rightarrow> Inl e
      | Inr u \<Rightarrow> (case collect_shortest d of Inl e \<Rightarrow> Inl e | Inr ds \<Rightarrow> Inr ((u, k) # ds)))"

definition dedupe_same_value :: "keydef list \<Rightarrow> error + keydef list" where
  "dedupe_same_value defs = collect_shortest (group_by_value defs)"

section \<open>The pipeline\<close>

text \<open>
  \<open>_get_key_definitions\<close> from line 86 on, as a function of the list \<open>defs\<close> of raw
  definitions that line 84 builds from the layout: the three passes in order, then
  \<open>defs.sort(key=lambda d: d[1].lower())\<close>. Python's sort is stable, as is \<open>sort_key\<close>.
  The third pass is the only step that can raise (\<open>min\<close> of an empty list).
\<close>

definition get_key_definitions :: "(pystr \<Rightarrow> pystr) \<Rightarrow> (pystr \<Rightarrow> pystr) \<Rightarrow> keydef list \<Rightarrow> error + keydef list" where
  "get_key_definitions lower casefold raw =
     (let defs = dedupe_same_usage raw;
          defs = dedupe_uppercase casefold defs
      in case dedupe_same_value defs of
           Inl e \<Rightarrow> Inl e
         | Inr defs \<Rightarrow> Inr (sort_key (\<lambda>d. lower (snd d)) defs))"

text \<open>
  The usage a keymap's modifier requirement yields in \<open>_get_raw_definitions\<close> (lines 99
  to 101): \<open>HidUsage(usage.modifiers | keymap.modifiers, usage.page, usage.id)\<close>.
\<close>

definition with_modifiers :: "HidUsage \<Rightarrow> Modifier set \<Rightarrow> HidUsage" where
  "with_modifiers usage mods =
     \<lparr>modifiers = modifiers usage \<union> mods, page = page usage, id_u = id_u usage\<rparr>"

section \<open>The generator object\<close>

text \<open>
  Modelled from the spec: the class \<open>KeyAlias\<close> of \<open>keys.py\<close>, a record of the one
  field \<open>alias\<close> (the name of another key). A value of the key table is a \<open>HidUsage\<close>
  or a \<open>KeyAlias\<close>; \<open>OtherValue\<close> stands for an object of any other class, for which
  \<open>_lookup_usage\<close> has its final \<open>raise\<close>.
\<close>

datatype key_entry = Usage HidUsage | KeyAlias pystr | OtherValue

text \<open>A value of the codepoint name table: one name (\<open>str\<close>) or a list of names.\<close>

datatype names_entry = Name pystr | Names "pystr list"

text \<open>
  The two attributes of \<open>LocaleGenerator\<close>. The key table is a \<open>dict\<close> that
  \<open>_get_key_names\<close> iterates over, so it is an association list in insertion order, and
  its subscript \<open>self.keys[name]\<close> is \<open>map_of\<close>; the keys of a \<open>dict\<close> are distinct.
  The codepoint name table is only subscripted and assigned, so it is a map.
\<close>

record LocaleGenerator =
  keys :: "(pystr \<times> key_entry) list"
  codepoint_names :: "pystr \<rightharpoonup> names_entry"

text \<open>
  \<open>_lookup_usage\<close>: the subscript raises \<open>KeyError\<close> for a missing name; the \<open>match\<close>
  tries \<open>KeyAlias\<close> first, then \<open>HidUsage\<close>, and falls through to the \<open>raise
  ValueError\<close>. Every call of the method, the first one and each recursive one, takes
  one frame of the interpreter's stack, and a call that would exceed the recursion limit
  (\<open>sys.getrecursionlimit()\<close>, 1000 by default) raises \<open>RecursionError\<close> instead of
  running. \<open>frames\<close> is the number of frames that are still free when the call is made:
  with none left the call raises, otherwise its recursive call has one frame less. So
  the recursion on a cyclic alias chain ends in \<open>RecursionError\<close>, as does the one on
  an acyclic chain that is too long.
\<close>

fun lookup_usage :: "LocaleGenerator \<Rightarrow> nat \<Rightarrow> pystr \<Rightarrow> error + HidUsage" where
  "lookup_usage self 0 name = Inl RecursionError"
| "lookup_usage self (Suc frames) name =
     (case map_of (keys self) name of
        None \<Rightarrow> Inl KeyError
      | Some (KeyAlias alias) \<Rightarrow> lookup_usage self frames alias
      | Some (Usage value) \<Rightarrow> Inr value
      | Some OtherValue \<Rightarrow> Inl ValueError)"



text \<open>
  \<open>_get_key_names\<close>. \<open>fragments\<close> is the normalisation of lines 111 and 112 (a single
  string becomes a one-element list) and \<open>alias_names\<close> the list comprehension of lines
  114 to 118, which is evaluated in full before \<open>+=\<close> extends \<open>names\<close>. When the
  table holds a list, \<open>names\<close> is that very list object and \<open>+=\<close> extends it in place,
  so the table entry changes; when it holds a string, \<open>names\<close> is a fresh list. The
  function therefore returns its result together with the generator after the call.
\<close>

definition fragments :: "names_entry \<Rightarrow> pystr list" where
  "fragments entry = (case entry of Name s \<Rightarrow> [s] | Names l \<Rightarrow> l)"

definition alias_names :: "LocaleGenerator \<Rightarrow> pystr list \<Rightarrow> pystr list" where
  "alias_names self names =
     map fst (filter (\<lambda>(k, v). case v of KeyAlias a \<Rightarrow> a \<in> set names | _ \<Rightarrow> False) (keys self))"

definition get_key_names :: "(pystr \<Rightarrow> pystr) \<Rightarrow> LocaleGenerator \<Rightarrow> pystr \<Rightarrow> pystr \<Rightarrow> pystr list option \<times> LocaleGenerator" where
  "get_key_names upper self locale value =
     (case codepoint_names self value of
        None \<Rightarrow> (None, self)
      | Some entry \<Rightarrow>
          (let names = fragments entry @ alias_names self (fragments entry);
               self' = (case entry of
                          Name s \<Rightarrow> self
                        | Names l \<Rightarrow> self\<lparr>codepoint_names := (codepoint_names self)(value \<mapsto> Names names)\<rparr>)
           in (Some (map (\<lambda>name. upper locale @ str_of ''_'' @ name) names), self')))"

section \<open>Writing the definitions\<close>

text \<open>
  Python's \<open>ord\<close>: the code point of a string of length one, \<open>TypeError\<close> otherwise.
\<close>

definition py_ord :: "pystr \<Rightarrow> error + nat" where
  "py_ord s = (case s of [c] \<Rightarrow> Inr c | _ \<Rightarrow> Inl TypeError)"

text \<open>
  The record passed to \<open>logging.debug\<close>: the message
  \<open>f"Skipped U+{ord(value):04X} ({value}) = {usage}"\<close> is kept as its three values.
\<close>

datatype log_record = Skipped nat pystr HidUsage

text \<open>
  The state of the loop of \<open>write_header\<close> (lines 61 to 71): the strings written to
  \<open>io\<close> so far, the debug records logged so far, and the generator.
\<close>

record writer =
  io :: "pystr list"
  debug :: "log_record list"
  gen :: LocaleGenerator

text \<open>
  The loop \<open>for usage, value in defs\<close> of \<open>write_header\<close>. \<open>str_usage\<close> is
  \<open>HidUsage.__str__\<close> of \<open>keys.py\<close>, which the f-string \<open>{usage}\<close> calls, taken as a
  parameter. A falsy \<open>names\<close> (\<open>None\<close> or an empty list) takes the \<open>else\<close> branch, whose
  f-string calls \<open>ord(value)\<close>. The result is the state reached and the exception that
  ended the loop, if any.
\<close>

fun write_definitions :: "(pystr \<Rightarrow> pystr) \<Rightarrow> (HidUsage \<Rightarrow> pystr) \<Rightarrow> pystr \<Rightarrow> keydef list \<Rightarrow> writer \<Rightarrow> writer \<times> error option" where
  "write_definitions upper str_usage locale [] st = (st, None)"
| "write_definitions upper str_usage locale ((usage, value) # defs) st =
     (case get_key_names upper (gen st) locale value of
        (Some (main # aliases), self') \<Rightarrow>
          write_definitions upper str_usage locale defs
            (st\<lparr>io := io st @
                   [str_of [CHR 0x0A],
                    str_of ''#define '' @ main @ str_of '' ('' @ str_usage usage @ str_of '')'' @ str_of [CHR 0x0A]] @
                   map (\<lambda>alias. str_of ''#define '' @ alias @ str_of '' ('' @ main @ str_of '')'' @ str_of [CHR 0x0A]) aliases,
                 gen := self'\<rparr>)
      | (_, self') \<Rightarrow>
          (case py_ord value of
             Inl e \<Rightarrow> (st\<lparr>gen := self'\<rparr>, Some e)
           | Inr cp \<Rightarrow>
               write_definitions upper str_usage locale defs
                 (st\<lparr>debug := debug st @ [Skipped cp value usage], gen := self'\<rparr>)))"

section \<open>The redundancy condition of the specification\<close>

text \<open>
  The condition under which the specification calls a definition \<open>a\<close> redundant,
  in the specification's words: \<open>a\<close>'s modifier set contains a left or right shift,
  and some base definition \<open>b\<close> (empty modifier set) of the list has the same
  character as \<open>a\<close> under \<open>casefold\<close> and the modifier set of \<open>a\<close> without the shifts.
\<close>

definition redundant_uppercase :: "(pystr \<Rightarrow> pystr) \<Rightarrow> keydef list \<Rightarrow> keydef \<Rightarrow> bool" where
  "redundant_uppercase casefold defs a =
     ((LShift \<in> modifiers (fst a) \<or> RShift \<in> modifiers (fst a)) \<and>
      (\<exists>b \<in> set defs. modifiers (fst b) = {} \<and> casefold (snd a) = casefold (snd b) \<and>
          modifiers (fst a) - {LShift, RShift} = modifiers (fst b)))"

section \<open>Auxiliary functions of the proofs\<close>

text \<open>
  The item \<open>py_min\<close> returns on a non-empty list, and the closed form of what the
  same-character pass returns: the characters in the order of their first occurrence,
  each with the first of its usages that has the fewest modifiers. Both are used in
  the proofs only; \<open>dedupe_same_value_eq\<close> below relates them to the code.
\<close>

definition first_min :: "('a \<Rightarrow> nat) \<Rightarrow> 'a list \<Rightarrow> 'a" where
  "first_min key xs = fold (\<lambda>y best. if key y < key best then y else best) (tl xs) (hd xs)"

definition first_occurrences :: "'a list \<Rightarrow> 'a list" where
  "first_occurrences xs = rev (remdups (rev xs))"

definition usages_of :: "keydef list \<Rightarrow> pystr \<Rightarrow> HidUsage list" where
  "usages_of defs c = map fst (filter (\<lambda>d. snd d = c) defs)"

definition same_value_result :: "keydef list \<Rightarrow> keydef list" where
  "same_value_result defs =
     map (\<lambda>c. (first_min (\<lambda>x. card (modifiers x)) (usages_of defs c), c))
       (first_occurrences (map snd defs))"

text \<open>What the three passes return, by \<open>dedupe_same_value_eq\<close>; used in the proofs only.\<close>

definition three_passes :: "(pystr \<Rightarrow> pystr) \<Rightarrow> keydef list \<Rightarrow> keydef list" where
  "three_passes casefold raw =
     same_value_result (dedupe_uppercase casefold (dedupe_same_usage raw))"


section \<open>Properties of the uppercase-shift pass\<close>

lemma Bex_filter_conj: "(\<exists>b \<in> set (filter B xs). Q b) = (\<exists>b \<in> set xs. B b \<and> Q b)"
  by auto

lemma if_not_False_conj: "(if \<not> H then False else E) = (H \<and> E)"
  by simp

lemma is_duplicate_uppercase_iff:
  "is_duplicate_uppercase casefold (filter (\<lambda>d. modifiers (fst d) = {}) defs) a
     = redundant_uppercase casefold defs a"
  unfolding is_duplicate_uppercase_def redundant_uppercase_def has_shift_def
      remove_shift_def list_ex_iff Let_def Bex_filter_conj
  by (rule if_not_False_conj)

lemma redundant_uppercase_not_base:
  "redundant_uppercase casefold defs a \<Longrightarrow> modifiers (fst a) \<noteq> {}"
  by (auto simp: redundant_uppercase_def)

lemma mset_base_mod_split:
  assumes "\<And>a. \<not> P a \<Longrightarrow> \<not> B a"
  shows "mset (filter B xs @ filter P (filter (\<lambda>d. \<not> B d) xs)) = mset (filter P xs)"
proof -
  have 1: "filter B xs = filter B (filter P xs)"
    using assms by (induction xs) auto
  have 2: "filter P (filter (\<lambda>d. \<not> B d) xs) = filter (\<lambda>d. \<not> B d) (filter P xs)"
    by (induction xs) auto
  have "mset (filter B (filter P xs) @ filter (\<lambda>d. \<not> B d) (filter P xs)) = mset (filter P xs)"
    by (induction xs) auto
  then show ?thesis using 1 2 by simp
qed

lemma dedupe_uppercase_alt:
  "dedupe_uppercase casefold defs =
     filter (\<lambda>d. modifiers (fst d) = {}) defs @
     filter (\<lambda>d. \<not> redundant_uppercase casefold defs d)
       (filter (\<lambda>d. modifiers (fst d) \<noteq> {}) defs)"
  by (simp add: dedupe_uppercase_def Let_def is_duplicate_uppercase_iff)

lemma mset_dedupe_uppercase:
  "mset (dedupe_uppercase casefold defs)
     = mset (filter (\<lambda>a. \<not> redundant_uppercase casefold defs a) defs)"
  unfolding dedupe_uppercase_alt
  by (rule mset_base_mod_split) (auto dest: redundant_uppercase_not_base)

lemma set_dedupe_uppercase:
  "set (dedupe_uppercase casefold defs)
     = {a \<in> set defs. \<not> redundant_uppercase casefold defs a}"
  using arg_cong [OF mset_dedupe_uppercase, of set_mset casefold defs] by simp

text \<open>
  C1. The claim is that a base definition \<open>(U0, 'a')\<close> and a modified definition
  \<open>(U1 + Shift, 'A')\<close> with \<open>U1 \<noteq> U0\<close> both survive the uppercase-shift pass. The
  code does otherwise: on the base definition \<open>(page 7, id 4, 'a')\<close> and the shifted
  definition \<open>(LShift, page 7, id 5, 'A')\<close> of another key the pass returns the base
  definition alone. \<open>is_duplicate_uppercase\<close> compares the characters under \<open>casefold\<close>
  and the modifier sets, never the page or the id, although the comment above it
  asks for \<open>a.usage == LS(b.usage)\<close>.
\<close>

theorem dedupe_uppercase_drops_other_usage:
  "dedupe_uppercase ascii_lower
     [(\<lparr>modifiers = {}, page = 7, id_u = 4\<rparr>, str_of ''a''),
      (\<lparr>modifiers = {LShift}, page = 7, id_u = 5\<rparr>, str_of ''A'')]
   = [(\<lparr>modifiers = {}, page = 7, id_u = 4\<rparr>, str_of ''a'')]"
  by (simp add: dedupe_uppercase_def is_duplicate_uppercase_def has_shift_def
      remove_shift_def ascii_lower_def str_of_def)

text \<open>
  C5. The uppercase-shift pass discards a definition exactly when it is redundant in
  the sense of \<open>redundant_uppercase\<close>: the result holds, with multiplicity, the
  definitions of the input that are not redundant. Every definition with an empty
  modifier set survives, in its input order.
\<close>

theorem dedupe_uppercase_discards_exactly:
  "mset (dedupe_uppercase casefold defs)
     = mset (filter (\<lambda>a. \<not> redundant_uppercase casefold defs a) defs) \<and>
   filter (\<lambda>d. modifiers (fst d) = {}) (dedupe_uppercase casefold defs)
     = filter (\<lambda>d. modifiers (fst d) = {}) defs"
proof
  show "mset (dedupe_uppercase casefold defs)
     = mset (filter (\<lambda>a. \<not> redundant_uppercase casefold defs a) defs)"
    by (rule mset_dedupe_uppercase)
  show "filter (\<lambda>d. modifiers (fst d) = {}) (dedupe_uppercase casefold defs)
     = filter (\<lambda>d. modifiers (fst d) = {}) defs"
    unfolding dedupe_uppercase_alt by (induction defs) auto
qed

theorem dedupe_uppercase_discards_exactly_witness:
  "mset (dedupe_uppercase ascii_lower
     [(\<lparr>modifiers = {LShift}, page = 7, id_u = 4\<rparr>, str_of ''A''),
      (\<lparr>modifiers = {RAlt}, page = 7, id_u = 4\<rparr>, str_of ''@''),
      (\<lparr>modifiers = {}, page = 7, id_u = 4\<rparr>, str_of ''a'')])
   = mset [(\<lparr>modifiers = {RAlt}, page = 7, id_u = 4\<rparr>, str_of ''@''),
           (\<lparr>modifiers = {}, page = 7, id_u = 4\<rparr>, str_of ''a'')] \<and>
   filter (\<lambda>d. modifiers (fst d) = {}) (dedupe_uppercase ascii_lower
     [(\<lparr>modifiers = {LShift}, page = 7, id_u = 4\<rparr>, str_of ''A''),
      (\<lparr>modifiers = {RAlt}, page = 7, id_u = 4\<rparr>, str_of ''@''),
      (\<lparr>modifiers = {}, page = 7, id_u = 4\<rparr>, str_of ''a'')])
   = [(\<lparr>modifiers = {}, page = 7, id_u = 4\<rparr>, str_of ''a'')]"
  using dedupe_uppercase_discards_exactly [of ascii_lower
     "[(\<lparr>modifiers = {LShift}, page = 7, id_u = 4\<rparr>, str_of ''A''),
      (\<lparr>modifiers = {RAlt}, page = 7, id_u = 4\<rparr>, str_of ''@''),
      (\<lparr>modifiers = {}, page = 7, id_u = 4\<rparr>, str_of ''a'')]"]
  by (simp add: redundant_uppercase_def ascii_lower_def str_of_def)

section \<open>Properties of the same-usage pass\<close>

lemma filter_unique_from:
  "filter (\<lambda>d. key d = u) (unique_from seen xs key) =
     (if u \<in> seen then []
      else case find (\<lambda>d. key d = u) xs of None \<Rightarrow> [] | Some d \<Rightarrow> [d])"
  by (induction xs arbitrary: seen) auto

lemma subseq_unique_from: "subseq (unique_from seen xs key) xs"
  by (induction xs arbitrary: seen) auto

lemma keys_unique_from: "key ` set (unique_from seen xs key) \<inter> seen = {}"
  by (induction xs arbitrary: seen) auto

lemma distinct_unique_from: "distinct (map key (unique_from seen xs key))"
proof (induction xs arbitrary: seen)
  case Nil
  show ?case by simp
next
  case (Cons x xs)
  have "key x \<notin> key ` set (unique_from (insert (key x) seen) xs key)"
    using keys_unique_from [of key "insert (key x) seen" xs] by blast
  then show ?case using Cons.IH by simp
qed

lemma unique_from_distinct_id:
  "distinct (map key xs) \<Longrightarrow> key ` set xs \<inter> seen = {} \<Longrightarrow> unique_from seen xs key = xs"
  by (induction xs arbitrary: seen) auto

lemma dedupe_same_usage_distinct: "distinct (map fst (dedupe_same_usage defs))"
  by (simp add: dedupe_same_usage_def unique_def distinct_unique_from)

lemma dedupe_same_usage_id: "distinct (map fst defs) \<Longrightarrow> dedupe_same_usage defs = defs"
  by (simp add: dedupe_same_usage_def unique_def unique_from_distinct_id)

text \<open>
  C4. The same-usage pass keeps, for every usage code \<open>u\<close>, exactly the first definition
  of the input with that usage code (none when the input has none), and the kept
  definitions stay in their input order. On \<open>[(U, a), (U, b)]\<close> the result is
  \<open>[(U, a)]\<close>.
\<close>

theorem dedupe_same_usage_keeps_first:
  "filter (\<lambda>d. fst d = u) (dedupe_same_usage defs)
     = (case find (\<lambda>d. fst d = u) defs of None \<Rightarrow> [] | Some d \<Rightarrow> [d]) \<and>
   subseq (dedupe_same_usage defs) defs \<and>
   dedupe_same_usage [(U, a), (U, b)] = [(U, a)]"
proof (intro conjI)
  have "u \<notin> {}" by simp
  then show "filter (\<lambda>d. fst d = u) (dedupe_same_usage defs)
     = (case find (\<lambda>d. fst d = u) defs of None \<Rightarrow> [] | Some d \<Rightarrow> [d])"
    unfolding dedupe_same_usage_def unique_def by (simp add: filter_unique_from)
  show "subseq (dedupe_same_usage defs) defs"
    unfolding dedupe_same_usage_def unique_def by (rule subseq_unique_from)
  show "dedupe_same_usage [(U, a), (U, b)] = [(U, a)]"
    by (simp add: dedupe_same_usage_def unique_def)
qed

theorem dedupe_same_usage_keeps_first_witness:
  "filter (\<lambda>d. fst d = \<lparr>modifiers = {}, page = 7, id_u = 4\<rparr>)
     (dedupe_same_usage
        [(\<lparr>modifiers = {}, page = 7, id_u = 5\<rparr>, str_of ''q''),
         (\<lparr>modifiers = {}, page = 7, id_u = 4\<rparr>, str_of ''a''),
         (\<lparr>modifiers = {}, page = 7, id_u = 5\<rparr>, str_of ''w''),
         (\<lparr>modifiers = {}, page = 7, id_u = 4\<rparr>, str_of ''b'')])
     = [(\<lparr>modifiers = {}, page = 7, id_u = 4\<rparr>, str_of ''a'')] \<and>
   dedupe_same_usage
        [(\<lparr>modifiers = {}, page = 7, id_u = 4\<rparr>, str_of ''a''),
         (\<lparr>modifiers = {}, page = 7, id_u = 4\<rparr>, str_of ''b'')]
     = [(\<lparr>modifiers = {}, page = 7, id_u = 4\<rparr>, str_of ''a'')]"
  using dedupe_same_usage_keeps_first [of "\<lparr>modifiers = {}, page = 7, id_u = 4\<rparr>"
        "[(\<lparr>modifiers = {}, page = 7, id_u = 5\<rparr>, str_of ''q''),
         (\<lparr>modifiers = {}, page = 7, id_u = 4\<rparr>, str_of ''a''),
         (\<lparr>modifiers = {}, page = 7, id_u = 5\<rparr>, str_of ''w''),
         (\<lparr>modifiers = {}, page = 7, id_u = 4\<rparr>, str_of ''b'')]"
        "\<lparr>modifiers = {}, page = 7, id_u = 4\<rparr>" "str_of ''a''" "str_of ''b''"]
  by simp

section \<open>Properties of the same-character pass\<close>

lemma fold_min_in:
  "fold (\<lambda>y best. if key y < key best then y else best) xs x \<in> set (x # xs)"
  by (induction xs arbitrary: x) auto

lemma fold_min_le:
  "y \<in> set (x # xs) \<Longrightarrow>
     (key (fold (\<lambda>y best. if key y < key best then y else best) xs x) :: nat) \<le> key y"
proof (induction xs arbitrary: x y)
  case Nil
  then show ?case by simp
next
  case (Cons a xs)
  let ?x' = "if key a < key x then a else x"
  have le_x': "key (fold (\<lambda>y best. if key y < key best then y else best) xs ?x') \<le> key ?x'"
    using Cons.IH [of ?x' ?x'] by simp
  show ?case
  proof (cases "y \<in> set (?x' # xs)")
    case True
    then show ?thesis using Cons.IH [of y ?x'] by simp
  next
    case False
    then have "key ?x' \<le> key y" using Cons.prems by (auto split: if_splits)
    then show ?thesis using le_x' by simp
  qed
qed

lemma py_min_nonempty: "xs \<noteq> [] \<Longrightarrow> py_min key xs = Inr (first_min key xs)"
  by (cases xs) (simp_all add: first_min_def)

lemma first_min_in: "xs \<noteq> [] \<Longrightarrow> first_min key xs \<in> set xs"
  using fold_min_in [of key "tl xs" "hd xs"] by (cases xs) (simp_all add: first_min_def)

lemma first_min_le: "y \<in> set xs \<Longrightarrow> key (first_min key xs) \<le> key y"
  using fold_min_le [of y "hd xs" "tl xs" key] by (cases xs) (simp_all add: first_min_def)

lemma first_min_single: "first_min key [x] = x"
  by (simp add: first_min_def)

lemma map_fst_append_value:
  "map fst (append_value d c u) = (if c \<in> fst ` set d then map fst d else map fst d @ [c])"
  by (induction d c u rule: append_value.induct) auto

lemma map_of_append_value:
  "map_of (append_value d c u) =
     (map_of d)(c \<mapsto> (case map_of d c of None \<Rightarrow> [u] | Some us \<Rightarrow> us @ [u]))"
  by (induction d c u rule: append_value.induct) (auto simp: fun_eq_iff)

lemma group_by_value_snoc:
  "group_by_value (xs @ [(u, c)]) = append_value (group_by_value xs) c u"
  by (simp add: group_by_value_def)

lemma keys_group_by_value:
  "map fst (group_by_value defs) = first_occurrences (map snd defs)"
proof (induction defs rule: rev_induct)
  case Nil
  show ?case by (simp add: group_by_value_def first_occurrences_def)
next
  case (snoc x xs)
  obtain u c where x: "x = (u, c)" by (cases x)
  have "set (map fst (group_by_value xs)) = snd ` set xs"
    unfolding snoc.IH by (simp add: first_occurrences_def)
  then have "fst ` set (group_by_value xs) = snd ` set xs" by simp
  then show ?case
    using snoc.IH by (simp add: x group_by_value_snoc map_fst_append_value first_occurrences_def)
qed

lemma map_of_group_by_value:
  "map_of (group_by_value defs) c =
     (if c \<in> snd ` set defs then Some (usages_of defs c) else None)"
proof (induction defs rule: rev_induct)
  case Nil
  show ?case by (simp add: group_by_value_def)
next
  case (snoc x xs)
  obtain u c' where x: "x = (u, c')" by (cases x)
  show ?case
    using snoc.IH
    by (auto simp: x group_by_value_snoc map_of_append_value usages_of_def filter_empty_conv
        image_iff)
qed

lemma alist_by_keys:
  "distinct (map fst g) \<Longrightarrow> g = map (\<lambda>k. (k, the (map_of g k))) (map fst g)"
proof -
  assume d: "distinct (map fst g)"
  have "map (\<lambda>x. (fst x, the (map_of g (fst x)))) g = g"
  proof (rule map_idI)
    fix x assume "x \<in> set g"
    then have "map_of g (fst x) = Some (snd x)" using d by simp
    then show "(fst x, the (map_of g (fst x))) = x" by simp
  qed
  then show ?thesis by (simp add: comp_def)
qed

lemma distinct_first_occurrences: "distinct (first_occurrences xs)"
  by (simp add: first_occurrences_def)

lemma set_first_occurrences: "set (first_occurrences xs) = set xs"
  by (simp add: first_occurrences_def)

lemma group_by_value_closed:
  "group_by_value defs = map (\<lambda>c. (c, usages_of defs c)) (first_occurrences (map snd defs))"
proof -
  have d: "distinct (map fst (group_by_value defs))"
    by (simp add: keys_group_by_value distinct_first_occurrences)
  have "group_by_value defs =
      map (\<lambda>k. (k, the (map_of (group_by_value defs) k))) (first_occurrences (map snd defs))"
    using alist_by_keys [OF d] by (simp add: keys_group_by_value)
  also have "\<dots> = map (\<lambda>c. (c, usages_of defs c)) (first_occurrences (map snd defs))"
    by (rule map_cong) (auto simp: map_of_group_by_value set_first_occurrences)
  finally show ?thesis .
qed

lemma usages_of_nonempty: "c \<in> snd ` set defs \<Longrightarrow> usages_of defs c \<noteq> []"
  by (auto simp: usages_of_def filter_empty_conv)

lemma collect_shortest_map:
  "(\<And>c. c \<in> set ks \<Longrightarrow> G c \<noteq> []) \<Longrightarrow>
   collect_shortest (map (\<lambda>c. (c, G c)) ks)
     = Inr (map (\<lambda>c. (first_min (\<lambda>x. card (modifiers x)) (G c), c)) ks)"
  by (induction ks) (simp_all add: shortest_mods_def py_min_nonempty)

lemma dedupe_same_value_eq: "dedupe_same_value defs = Inr (same_value_result defs)"
  unfolding dedupe_same_value_def same_value_result_def group_by_value_closed
  by (rule collect_shortest_map) (simp add: set_first_occurrences usages_of_nonempty)

lemma Modifier_UNIV:
  "(UNIV :: Modifier set) = {LCtrl, LShift, LAlt, LGui, RCtrl, RShift, RAlt, RGui}"
proof -
  have "m \<in> {LCtrl, LShift, LAlt, LGui, RCtrl, RShift, RAlt, RGui}" for m
    by (cases m) simp_all
  then show ?thesis by blast
qed

lemma finite_modifiers: "finite (M :: Modifier set)"
  by (rule finite_subset [OF subset_UNIV]) (simp add: Modifier_UNIV)

lemma card_modifiers_0: "card (M :: Modifier set) = 0 \<longleftrightarrow> M = {}"
  by (simp add: finite_modifiers)

lemma chars_same_value_result:
  "map snd (same_value_result defs) = first_occurrences (map snd defs)"
  by (simp add: same_value_result_def comp_def)

lemma same_value_result_subset: "set (same_value_result defs) \<subseteq> set defs"
proof
  fix d assume "d \<in> set (same_value_result defs)"
  then obtain c where c: "c \<in> snd ` set defs"
    and d: "d = (first_min (\<lambda>x. card (modifiers x)) (usages_of defs c), c)"
    by (auto simp: same_value_result_def set_first_occurrences)
  have "first_min (\<lambda>x. card (modifiers x)) (usages_of defs c) \<in> set (usages_of defs c)"
    by (rule first_min_in) (rule usages_of_nonempty [OF c])
  then show "d \<in> set defs" by (auto simp: d usages_of_def)
qed

lemma same_value_result_minimal:
  assumes "(u, c) \<in> set (same_value_result defs)" and "(u', c) \<in> set defs"
  shows "card (modifiers u) \<le> card (modifiers u')"
proof -
  have u: "u = first_min (\<lambda>x. card (modifiers x)) (usages_of defs c)"
    using assms(1) by (auto simp: same_value_result_def)
  have "u' \<in> set (usages_of defs c)"
    using assms(2) by (force simp: usages_of_def)
  then show ?thesis
    unfolding u by (rule first_min_le)
qed

text \<open>
  C6. The same-character pass returns (it never raises), and its result holds exactly
  one definition for every character of the input and none for any other character;
  each kept definition is a definition of the input, and its modifier set has the
  least cardinality among the input definitions with that character. On
  \<open>[(U0, x), (U0 + Alt, x)]\<close> the result is \<open>[(U0, x)]\<close>.
\<close>

theorem dedupe_same_value_keeps_shortest:
  "(\<exists>ys. dedupe_same_value defs = Inr ys \<and>
      distinct (map snd ys) \<and> snd ` set ys = snd ` set defs \<and> set ys \<subseteq> set defs \<and>
      (\<forall>(u, c) \<in> set ys. \<forall>(u', c') \<in> set defs.
          c' = c \<longrightarrow> card (modifiers u) \<le> card (modifiers u'))) \<and>
   dedupe_same_value [(U0, x), (with_modifiers U0 {LAlt}, x)] = Inr [(U0, x)]"
proof
  let ?ys = "same_value_result defs"
  have 1: "distinct (map snd ?ys)"
    by (simp only: chars_same_value_result distinct_first_occurrences)
  have "set (map snd ?ys) = set (map snd defs)"
    by (simp only: chars_same_value_result set_first_occurrences)
  then have 2: "snd ` set ?ys = snd ` set defs" by simp
  have 3: "\<forall>(u, c) \<in> set ?ys. \<forall>(u', c') \<in> set defs.
          c' = c \<longrightarrow> card (modifiers u) \<le> card (modifiers u')"
    using same_value_result_minimal by blast
  show "\<exists>ys. dedupe_same_value defs = Inr ys \<and>
      distinct (map snd ys) \<and> snd ` set ys = snd ` set defs \<and> set ys \<subseteq> set defs \<and>
      (\<forall>(u, c) \<in> set ys. \<forall>(u', c') \<in> set defs.
          c' = c \<longrightarrow> card (modifiers u) \<le> card (modifiers u'))"
    using 1 2 3 same_value_result_subset dedupe_same_value_eq by blast
next
  have "\<not> card (insert LAlt (modifiers U0)) < card (modifiers U0)"
    by (simp add: card_insert_if finite_modifiers)
  then show "dedupe_same_value [(U0, x), (with_modifiers U0 {LAlt}, x)] = Inr [(U0, x)]"
    by (simp add: dedupe_same_value_def group_by_value_def shortest_mods_def with_modifiers_def)
qed

theorem dedupe_same_value_keeps_shortest_witness:
  "dedupe_same_value
     [(\<lparr>modifiers = {LAlt, LShift}, page = 7, id_u = 5\<rparr>, str_of ''z''),
      (\<lparr>modifiers = {}, page = 7, id_u = 4\<rparr>, str_of ''x''),
      (\<lparr>modifiers = {LAlt}, page = 7, id_u = 5\<rparr>, str_of ''z''),
      (\<lparr>modifiers = {RAlt}, page = 7, id_u = 4\<rparr>, str_of ''z''),
      (\<lparr>modifiers = {LAlt}, page = 7, id_u = 4\<rparr>, str_of ''x'')]
   = Inr [(\<lparr>modifiers = {LAlt}, page = 7, id_u = 5\<rparr>, str_of ''z''),
          (\<lparr>modifiers = {}, page = 7, id_u = 4\<rparr>, str_of ''x'')] \<and>
   dedupe_same_value
     [(\<lparr>modifiers = {}, page = 7, id_u = 4\<rparr>, str_of ''x''),
      (with_modifiers \<lparr>modifiers = {}, page = 7, id_u = 4\<rparr> {LAlt}, str_of ''x'')]
   = Inr [(\<lparr>modifiers = {}, page = 7, id_u = 4\<rparr>, str_of ''x'')]"
  using dedupe_same_value_keeps_shortest [of
     "[(\<lparr>modifiers = {LAlt, LShift}, page = 7, id_u = 5\<rparr>, str_of ''z''),
      (\<lparr>modifiers = {}, page = 7, id_u = 4\<rparr>, str_of ''x''),
      (\<lparr>modifiers = {LAlt}, page = 7, id_u = 5\<rparr>, str_of ''z''),
      (\<lparr>modifiers = {RAlt}, page = 7, id_u = 4\<rparr>, str_of ''z''),
      (\<lparr>modifiers = {LAlt}, page = 7, id_u = 4\<rparr>, str_of ''x'')]"
     "\<lparr>modifiers = {}, page = 7, id_u = 4\<rparr>" "str_of ''x''"]
  by (simp add: dedupe_same_value_def group_by_value_def shortest_mods_def str_of_def)

section \<open>Properties of the pipeline\<close>

lemma three_passes_eq:
  "dedupe_same_value (dedupe_uppercase casefold (dedupe_same_usage raw))
     = Inr (three_passes casefold raw)"
  by (simp add: three_passes_def dedupe_same_value_eq)

lemma get_key_definitions_eq:
  "get_key_definitions lower casefold raw
     = Inr (sort_key (\<lambda>d. lower (snd d)) (three_passes casefold raw))"
  by (simp add: get_key_definitions_def Let_def three_passes_eq)

lemma distinct_map_mset_eq:
  "mset xs = mset ys \<Longrightarrow> distinct (map f xs) = distinct (map f ys)"
proof -
  assume "mset xs = mset ys"
  then have "mset (map f xs) = mset (map f ys)" by simp
  then show ?thesis by (rule mset_eq_imp_distinct_iff)
qed

lemma dedupe_uppercase_distinct:
  "distinct (map fst defs) \<Longrightarrow> distinct (map fst (dedupe_uppercase casefold defs))"
  using distinct_map_mset_eq [OF mset_dedupe_uppercase, of fst casefold defs]
  by (simp add: distinct_map_filter)

lemma distinct_same_value_result: "distinct (same_value_result defs)"
  using chars_same_value_result [of defs] distinct_first_occurrences [of "map snd defs"]
  by (metis distinct_map)

lemma distinct_map_subset:
  "distinct (map f xs) \<Longrightarrow> distinct ys \<Longrightarrow> set ys \<subseteq> set xs \<Longrightarrow> distinct (map f ys)"
  by (auto simp: distinct_map intro: inj_on_subset)

lemma same_value_result_distinct_usages:
  "distinct (map fst defs) \<Longrightarrow> distinct (map fst (same_value_result defs))"
  by (rule distinct_map_subset [OF _ distinct_same_value_result same_value_result_subset])

lemma three_passes_distinct_usages: "distinct (map fst (three_passes casefold raw))"
  unfolding three_passes_def
  by (intro same_value_result_distinct_usages dedupe_uppercase_distinct
      dedupe_same_usage_distinct)

lemma three_passes_distinct_chars: "distinct (map snd (three_passes casefold raw))"
  unfolding three_passes_def
  by (simp only: chars_same_value_result distinct_first_occurrences)

text \<open>
  C2. For every list of raw definitions the three passes return (no pass raises), and
  in their result no two definitions have the same usage code and no two have the
  same character; the same holds for the sorted list that \<open>_get_key_definitions\<close>
  returns.
\<close>

theorem get_key_definitions_no_duplicates:
  "(\<exists>zs. dedupe_same_value (dedupe_uppercase casefold (dedupe_same_usage raw)) = Inr zs \<and>
      distinct (map fst zs) \<and> distinct (map snd zs)) \<and>
   (\<exists>ys. get_key_definitions lower casefold raw = Inr ys \<and>
      distinct (map fst ys) \<and> distinct (map snd ys))"
proof
  show "\<exists>zs. dedupe_same_value (dedupe_uppercase casefold (dedupe_same_usage raw)) = Inr zs \<and>
      distinct (map fst zs) \<and> distinct (map snd zs)"
    using three_passes_eq three_passes_distinct_usages three_passes_distinct_chars by blast
next
  let ?ys = "sort_key (\<lambda>d. lower (snd d)) (three_passes casefold raw)"
  have m: "mset ?ys = mset (three_passes casefold raw)" by simp
  have "distinct (map fst ?ys)"
    using distinct_map_mset_eq [OF m, of fst] three_passes_distinct_usages by simp
  moreover have "distinct (map snd ?ys)"
    using distinct_map_mset_eq [OF m, of snd] three_passes_distinct_chars by simp
  ultimately show "\<exists>ys. get_key_definitions lower casefold raw = Inr ys \<and>
      distinct (map fst ys) \<and> distinct (map snd ys)"
    using get_key_definitions_eq by blast
qed

theorem get_key_definitions_no_duplicates_witness:
  "get_key_definitions ascii_lower ascii_lower
     [(\<lparr>modifiers = {}, page = 7, id_u = 4\<rparr>, str_of ''a''),
      (\<lparr>modifiers = {}, page = 7, id_u = 4\<rparr>, str_of ''b''),
      (\<lparr>modifiers = {LShift}, page = 7, id_u = 4\<rparr>, str_of ''A''),
      (\<lparr>modifiers = {}, page = 7, id_u = 5\<rparr>, str_of ''a''),
      (\<lparr>modifiers = {RAlt}, page = 7, id_u = 5\<rparr>, str_of ''!''),
      (\<lparr>modifiers = {}, page = 7, id_u = 6\<rparr>, str_of ''!'')]
   = Inr [(\<lparr>modifiers = {}, page = 7, id_u = 6\<rparr>, str_of ''!''),
          (\<lparr>modifiers = {}, page = 7, id_u = 4\<rparr>, str_of ''a'')] \<and>
   distinct (map fst
         [(\<lparr>modifiers = {}, page = 7, id_u = 6\<rparr>, str_of ''!''),
          (\<lparr>modifiers = {}, page = 7, id_u = 4\<rparr>, str_of ''a'')]) \<and>
   distinct (map snd
         [(\<lparr>modifiers = {}, page = 7, id_u = 6\<rparr>, str_of ''!''),
          (\<lparr>modifiers = {}, page = 7, id_u = 4\<rparr>, str_of ''a'')])"
  using get_key_definitions_no_duplicates [of ascii_lower
     "[(\<lparr>modifiers = {}, page = 7, id_u = 4\<rparr>, str_of ''a''),
      (\<lparr>modifiers = {}, page = 7, id_u = 4\<rparr>, str_of ''b''),
      (\<lparr>modifiers = {LShift}, page = 7, id_u = 4\<rparr>, str_of ''A''),
      (\<lparr>modifiers = {}, page = 7, id_u = 5\<rparr>, str_of ''a''),
      (\<lparr>modifiers = {RAlt}, page = 7, id_u = 5\<rparr>, str_of ''!''),
      (\<lparr>modifiers = {}, page = 7, id_u = 6\<rparr>, str_of ''!'')]" ascii_lower]
  by (simp add: get_key_definitions_def dedupe_same_usage_def unique_def dedupe_uppercase_def
      is_duplicate_uppercase_def has_shift_def remove_shift_def dedupe_same_value_def
      group_by_value_def shortest_mods_def str_of_def ascii_lower_def)

text \<open>
  C7. The list \<open>_get_key_definitions\<close> returns is the result of the three passes sorted
  by the key \<open>lower\<close> of the character: the keys are in ascending order, the list is a
  permutation of the three passes' result, and definitions with equal keys keep the
  relative order they had before the sort. For the characters \<open>b, A, a, C\<close> (on four
  different keys, so that the usage codes are in another order) the result is
  \<open>A, a, b, C\<close>.
\<close>

theorem get_key_definitions_sorted:
  "(\<exists>zs ys. dedupe_same_value (dedupe_uppercase casefold (dedupe_same_usage raw)) = Inr zs \<and>
      get_key_definitions lower casefold raw = Inr ys \<and>
      sorted (map (\<lambda>d. lower (snd d)) ys) \<and> mset ys = mset zs \<and>
      (\<forall>k. filter (\<lambda>d. lower (snd d) = k) ys = filter (\<lambda>d. lower (snd d) = k) zs)) \<and>
   get_key_definitions ascii_lower ascii_lower
     [(\<lparr>modifiers = {}, page = 7, id_u = 4\<rparr>, str_of ''b''),
      (\<lparr>modifiers = {}, page = 7, id_u = 5\<rparr>, str_of ''A''),
      (\<lparr>modifiers = {}, page = 7, id_u = 6\<rparr>, str_of ''a''),
      (\<lparr>modifiers = {}, page = 7, id_u = 7\<rparr>, str_of ''C'')]
   = Inr [(\<lparr>modifiers = {}, page = 7, id_u = 5\<rparr>, str_of ''A''),
          (\<lparr>modifiers = {}, page = 7, id_u = 6\<rparr>, str_of ''a''),
          (\<lparr>modifiers = {}, page = 7, id_u = 4\<rparr>, str_of ''b''),
          (\<lparr>modifiers = {}, page = 7, id_u = 7\<rparr>, str_of ''C'')]"
proof
  let ?zs = "three_passes casefold raw"
  let ?ys = "sort_key (\<lambda>d. lower (snd d)) ?zs"
  have "sorted (map (\<lambda>d. lower (snd d)) ?ys)" by (rule sorted_sort_key)
  moreover have "mset ?ys = mset ?zs" by simp
  moreover have "\<forall>k. filter (\<lambda>d. lower (snd d) = k) ?ys = filter (\<lambda>d. lower (snd d) = k) ?zs"
    by (simp add: sort_key_stable)
  ultimately show "\<exists>zs ys.
      dedupe_same_value (dedupe_uppercase casefold (dedupe_same_usage raw)) = Inr zs \<and>
      get_key_definitions lower casefold raw = Inr ys \<and>
      sorted (map (\<lambda>d. lower (snd d)) ys) \<and> mset ys = mset zs \<and>
      (\<forall>k. filter (\<lambda>d. lower (snd d) = k) ys = filter (\<lambda>d. lower (snd d) = k) zs)"
    using three_passes_eq get_key_definitions_eq by blast
next
  show "get_key_definitions ascii_lower ascii_lower
     [(\<lparr>modifiers = {}, page = 7, id_u = 4\<rparr>, str_of ''b''),
      (\<lparr>modifiers = {}, page = 7, id_u = 5\<rparr>, str_of ''A''),
      (\<lparr>modifiers = {}, page = 7, id_u = 6\<rparr>, str_of ''a''),
      (\<lparr>modifiers = {}, page = 7, id_u = 7\<rparr>, str_of ''C'')]
   = Inr [(\<lparr>modifiers = {}, page = 7, id_u = 5\<rparr>, str_of ''A''),
          (\<lparr>modifiers = {}, page = 7, id_u = 6\<rparr>, str_of ''a''),
          (\<lparr>modifiers = {}, page = 7, id_u = 4\<rparr>, str_of ''b''),
          (\<lparr>modifiers = {}, page = 7, id_u = 7\<rparr>, str_of ''C'')]"
    by (simp add: get_key_definitions_def dedupe_same_usage_def unique_def dedupe_uppercase_def
        dedupe_same_value_def group_by_value_def shortest_mods_def str_of_def ascii_lower_def)
qed

theorem get_key_definitions_sorted_witness:
  "get_key_definitions ascii_lower ascii_lower
     [(\<lparr>modifiers = {RAlt}, page = 7, id_u = 4\<rparr>, str_of ''B''),
      (\<lparr>modifiers = {}, page = 7, id_u = 4\<rparr>, str_of ''b''),
      (\<lparr>modifiers = {}, page = 7, id_u = 5\<rparr>, str_of ''a'')]
   = Inr [(\<lparr>modifiers = {}, page = 7, id_u = 5\<rparr>, str_of ''a''),
          (\<lparr>modifiers = {}, page = 7, id_u = 4\<rparr>, str_of ''b''),
          (\<lparr>modifiers = {RAlt}, page = 7, id_u = 4\<rparr>, str_of ''B'')] \<and>
   sorted (map (\<lambda>d. ascii_lower (snd d))
         [(\<lparr>modifiers = {}, page = 7, id_u = 5\<rparr>, str_of ''a''),
          (\<lparr>modifiers = {}, page = 7, id_u = 4\<rparr>, str_of ''b''),
          (\<lparr>modifiers = {RAlt}, page = 7, id_u = 4\<rparr>, str_of ''B'')])"
  using get_key_definitions_sorted [of ascii_lower
     "[(\<lparr>modifiers = {RAlt}, page = 7, id_u = 4\<rparr>, str_of ''B''),
      (\<lparr>modifiers = {}, page = 7, id_u = 4\<rparr>, str_of ''b''),
      (\<lparr>modifiers = {}, page = 7, id_u = 5\<rparr>, str_of ''a'')]" ascii_lower]
  by (simp add: get_key_definitions_def dedupe_same_usage_def unique_def dedupe_uppercase_def
      is_duplicate_uppercase_def has_shift_def remove_shift_def dedupe_same_value_def
      group_by_value_def shortest_mods_def str_of_def ascii_lower_def)

section \<open>Running the pipeline on its own output\<close>

lemma remdups_append_filter:
  "remdups (xs @ ys) = remdups (filter (\<lambda>x. x \<notin> set ys) xs) @ remdups ys"
  by (induction xs) auto

lemma first_occurrences_append:
  "first_occurrences (xs @ ys)
     = first_occurrences xs @ first_occurrences (filter (\<lambda>y. y \<notin> set xs) ys)"
  by (simp add: first_occurrences_def remdups_append_filter [of "rev ys" "rev xs"] rev_filter)

lemma first_occurrences_distinct: "distinct xs \<Longrightarrow> first_occurrences xs = xs"
  by (simp add: first_occurrences_def distinct_remdups_id)

lemma filter_same_key_single:
  "distinct (map f xs) \<Longrightarrow> x \<in> set xs \<Longrightarrow> filter (\<lambda>e. f e = f x) xs = [x]"
proof (induction xs)
  case Nil
  then show ?case by simp
next
  case (Cons a xs)
  show ?case
  proof (cases "x = a")
    case True
    have "f a \<notin> f ` set xs" using Cons.prems(1) by simp
    then have "\<forall>e \<in> set xs. f e \<noteq> f a" by (metis imageI)
    then have "filter (\<lambda>e. f e = f a) xs = []"
      by (simp add: filter_empty_conv)
    then show ?thesis using True by simp
  next
    case False
    then have "x \<in> set xs" using Cons.prems(2) by simp
    moreover have "f a \<noteq> f x" using Cons.prems(1) \<open>x \<in> set xs\<close> by auto
    ultimately show ?thesis using Cons by simp
  qed
qed

lemma same_value_result_id:
  assumes "distinct (map snd defs)"
  shows "same_value_result defs = defs"
proof -
  have "map (\<lambda>d. (first_min (\<lambda>x. card (modifiers x)) (usages_of defs (snd d)), snd d)) defs = defs"
  proof (rule map_idI)
    fix d assume d: "d \<in> set defs"
    have "usages_of defs (snd d) = [fst d]"
      unfolding usages_of_def using filter_same_key_single [OF assms d] by simp
    then show "(first_min (\<lambda>x. card (modifiers x)) (usages_of defs (snd d)), snd d) = d"
      by (simp add: first_min_single)
  qed
  then show ?thesis
    by (simp add: same_value_result_def first_occurrences_distinct [OF assms] comp_def)
qed

lemma same_value_result_bases_first:
  assumes B: "\<And>d. d \<in> set bs \<Longrightarrow> modifiers (fst d) = {}"
    and M: "\<And>d. d \<in> set ms \<Longrightarrow> modifiers (fst d) \<noteq> {}"
  shows "same_value_result (bs @ ms)
     = filter (\<lambda>d. modifiers (fst d) = {}) (same_value_result (bs @ ms)) @
       filter (\<lambda>d. modifiers (fst d) \<noteq> {}) (same_value_result (bs @ ms))"
proof -
  let ?f = "\<lambda>c. (first_min (\<lambda>x. card (modifiers x)) (usages_of (bs @ ms) c), c)"
  let ?kb = "first_occurrences (map snd bs)"
  let ?km = "first_occurrences (filter (\<lambda>y. y \<notin> set (map snd bs)) (map snd ms))"
  have split: "same_value_result (bs @ ms) = map ?f ?kb @ map ?f ?km"
    by (simp add: same_value_result_def first_occurrences_append)
  have base: "modifiers (fst (?f c)) = {}" if "c \<in> set ?kb" for c
  proof -
    from that obtain u where u: "(u, c) \<in> set bs"
      by (auto simp: set_first_occurrences)
    then have "u \<in> set (usages_of (bs @ ms) c)" by (force simp: usages_of_def)
    then have "card (modifiers (first_min (\<lambda>x. card (modifiers x)) (usages_of (bs @ ms) c)))
        \<le> card (modifiers u)"
      by (rule first_min_le)
    moreover have "modifiers u = {}" using B [OF u] by simp
    ultimately show ?thesis by (simp add: card_modifiers_0)
  qed
  have modd: "modifiers (fst (?f c)) \<noteq> {}" if "c \<in> set ?km" for c
  proof -
    from that have c: "c \<in> snd ` set ms" "c \<notin> snd ` set bs"
      by (auto simp: set_first_occurrences)
    then have ne: "usages_of (bs @ ms) c \<noteq> []"
      by (intro usages_of_nonempty) auto
    have "first_min (\<lambda>x. card (modifiers x)) (usages_of (bs @ ms) c) \<in> set (usages_of (bs @ ms) c)"
      by (rule first_min_in [OF ne])
    then obtain d where d: "d \<in> set ms"
      and "fst d = first_min (\<lambda>x. card (modifiers x)) (usages_of (bs @ ms) c)"
      using c(2) by (force simp: usages_of_def)
    then show ?thesis using M [OF d] by simp
  qed
  have 1: "filter (\<lambda>d. modifiers (fst d) = {}) (map ?f ?kb) = map ?f ?kb"
    using base by (intro filter_True) auto
  have 2: "filter (\<lambda>d. modifiers (fst d) = {}) (map ?f ?km) = []"
    using modd by (intro filter_False) auto
  have 3: "filter (\<lambda>d. modifiers (fst d) \<noteq> {}) (map ?f ?kb) = []"
    using base by (intro filter_False) auto
  have 4: "filter (\<lambda>d. modifiers (fst d) \<noteq> {}) (map ?f ?km) = map ?f ?km"
    using modd by (intro filter_True) auto
  show ?thesis
    unfolding split filter_append 1 2 3 4 by simp
qed

lemma three_passes_bases_first:
  "three_passes casefold raw
     = filter (\<lambda>d. modifiers (fst d) = {}) (three_passes casefold raw) @
       filter (\<lambda>d. modifiers (fst d) \<noteq> {}) (three_passes casefold raw)"
  unfolding three_passes_def dedupe_uppercase_alt
  by (rule same_value_result_bases_first) auto

lemma partitioned_filter:
  assumes "zs = filter B zs @ filter (\<lambda>d. \<not> B d) zs"
  shows "filter Q zs = filter B (filter Q zs) @ filter (\<lambda>d. \<not> B d) (filter Q zs)"
proof -
  have "filter Q zs = filter Q (filter B zs @ filter (\<lambda>d. \<not> B d) zs)"
    using assms by simp
  also have "\<dots> = filter Q (filter B zs) @ filter Q (filter (\<lambda>d. \<not> B d) zs)" by simp
  also have "\<dots> = filter B (filter Q zs) @ filter (\<lambda>d. \<not> B d) (filter Q zs)"
    by (simp add: conj_commute)
  finally show ?thesis .
qed

lemma redundant_uppercase_mono:
  "redundant_uppercase casefold ys a \<Longrightarrow> set ys \<subseteq> set xs \<Longrightarrow> redundant_uppercase casefold xs a"
  unfolding redundant_uppercase_def by blast

lemma three_passes_subset:
  "set (three_passes casefold raw) \<subseteq> set (dedupe_uppercase casefold (dedupe_same_usage raw))"
  unfolding three_passes_def by (rule same_value_result_subset)

lemma three_passes_not_redundant:
  assumes "set ys = set (three_passes casefold raw)" and "a \<in> set ys"
  shows "\<not> redundant_uppercase casefold ys a"
proof
  let ?w = "dedupe_same_usage raw"
  assume r: "redundant_uppercase casefold ys a"
  have sub: "set ys \<subseteq> set (dedupe_uppercase casefold ?w)"
    using assms(1) three_passes_subset by simp
  also have "\<dots> \<subseteq> set ?w" by (auto simp: set_dedupe_uppercase)
  finally have "redundant_uppercase casefold ?w a"
    using r redundant_uppercase_mono by blast
  moreover have "\<not> redundant_uppercase casefold ?w a"
    using sub assms(2) by (auto simp: set_dedupe_uppercase)
  ultimately show False by simp
qed

lemma sort_key_stable':
  "filter (\<lambda>x. f k = f x) (sort_key f xs) = filter (\<lambda>x. f k = f x) xs"
  using sort_key_stable [of f "f k" xs] by (simp add: eq_commute [of "f k"])

lemma pipeline_fixed_point:
  fixes lower casefold :: "pystr \<Rightarrow> pystr" and raw :: "keydef list"
  defines "ys \<equiv> sort_key (\<lambda>d. lower (snd d)) (three_passes casefold raw)"
  shows "sort_key (\<lambda>d. lower (snd d)) (three_passes casefold ys) = ys"
proof -
  let ?fk = "\<lambda>d::keydef. lower (snd d)"
  let ?B = "\<lambda>d::keydef. modifiers (fst d) = {}"
  let ?zs = "three_passes casefold raw"
  let ?v = "filter ?B ys @ filter (\<lambda>d. \<not> ?B d) ys"
  have set_ys: "set ys = set ?zs" by (simp add: ys_def)
  have mset_ys: "mset ys = mset ?zs" by (simp add: ys_def)
  have du: "distinct (map fst ys)"
    using distinct_map_mset_eq [OF mset_ys, of fst] three_passes_distinct_usages by simp
  have dc: "distinct (map snd ys)"
    using distinct_map_mset_eq [OF mset_ys, of snd] three_passes_distinct_chars by simp
  have 1: "dedupe_same_usage ys = ys" by (rule dedupe_same_usage_id [OF du])
  have "filter (\<lambda>d. \<not> redundant_uppercase casefold ys d) (filter (\<lambda>d. \<not> ?B d) ys)
      = filter (\<lambda>d. \<not> ?B d) ys"
    by (rule filter_True) (auto dest: three_passes_not_redundant [OF set_ys])
  then have 2: "dedupe_uppercase casefold ys = ?v"
    by (simp add: dedupe_uppercase_alt)
  have mv: "mset ?v = mset ys" by simp
  have "distinct (map snd ?v)"
    using distinct_map_mset_eq [OF mv, of snd] dc by simp
  then have 3: "same_value_result ?v = ?v" by (rule same_value_result_id)
  have tp: "three_passes casefold ys = ?v"
    by (simp only: three_passes_def 1 2 3)
  have "sort_key ?fk ?v = ys"
  proof (rule properties_for_sort_key)
    show "mset ys = mset ?v" by simp
    show "sorted (map ?fk ys)" unfolding ys_def by (rule sorted_sort_key)
    fix k assume "k \<in> set ys"
    let ?Q = "\<lambda>x. ?fk k = ?fk x"
    have "filter ?Q ys = filter ?Q ?zs"
      unfolding ys_def by (rule sort_key_stable')
    also have "\<dots> = filter ?B (filter ?Q ?zs) @ filter (\<lambda>d. \<not> ?B d) (filter ?Q ?zs)"
      by (rule partitioned_filter) (rule three_passes_bases_first)
    also have "filter ?Q ?zs = filter ?Q ys"
      unfolding ys_def by (rule sort_key_stable' [symmetric])
    finally have "filter ?Q ys = filter ?B (filter ?Q ys) @ filter (\<lambda>d. \<not> ?B d) (filter ?Q ys)" .
    also have "\<dots> = filter ?Q ?v" by (simp add: conj_commute)
    finally show "filter ?Q ys = filter ?Q ?v" .
  qed
  then show ?thesis by (simp only: tp)
qed

text \<open>
  C3. For every list of raw definitions, \<open>_get_key_definitions\<close> returns a list on which
  it returns the same list again: running the three passes and the sort on the output
  changes neither its definitions nor their order.
\<close>

theorem get_key_definitions_idempotent:
  "\<exists>ys. get_key_definitions lower casefold raw = Inr ys \<and>
        get_key_definitions lower casefold ys = Inr ys"
  using get_key_definitions_eq [of lower casefold] pipeline_fixed_point [of lower casefold raw]
  by simp

theorem get_key_definitions_idempotent_witness:
  "get_key_definitions ascii_lower ascii_lower
     [(\<lparr>modifiers = {}, page = 7, id_u = 4\<rparr>, str_of ''a''),
      (\<lparr>modifiers = {}, page = 7, id_u = 4\<rparr>, str_of ''b''),
      (\<lparr>modifiers = {LShift}, page = 7, id_u = 4\<rparr>, str_of ''A''),
      (\<lparr>modifiers = {RAlt}, page = 7, id_u = 5\<rparr>, str_of ''B''),
      (\<lparr>modifiers = {}, page = 7, id_u = 5\<rparr>, str_of ''b''),
      (\<lparr>modifiers = {RAlt}, page = 7, id_u = 6\<rparr>, str_of ''!''),
      (\<lparr>modifiers = {}, page = 7, id_u = 6\<rparr>, str_of ''!'')]
   = Inr [(\<lparr>modifiers = {}, page = 7, id_u = 6\<rparr>, str_of ''!''),
          (\<lparr>modifiers = {}, page = 7, id_u = 4\<rparr>, str_of ''a''),
          (\<lparr>modifiers = {}, page = 7, id_u = 5\<rparr>, str_of ''b''),
          (\<lparr>modifiers = {RAlt}, page = 7, id_u = 5\<rparr>, str_of ''B'')] \<and>
   get_key_definitions ascii_lower ascii_lower
         [(\<lparr>modifiers = {}, page = 7, id_u = 6\<rparr>, str_of ''!''),
          (\<lparr>modifiers = {}, page = 7, id_u = 4\<rparr>, str_of ''a''),
          (\<lparr>modifiers = {}, page = 7, id_u = 5\<rparr>, str_of ''b''),
          (\<lparr>modifiers = {RAlt}, page = 7, id_u = 5\<rparr>, str_of ''B'')]
   = Inr [(\<lparr>modifiers = {}, page = 7, id_u = 6\<rparr>, str_of ''!''),
          (\<lparr>modifiers = {}, page = 7, id_u = 4\<rparr>, str_of ''a''),
          (\<lparr>modifiers = {}, page = 7, id_u = 5\<rparr>, str_of ''b''),
          (\<lparr>modifiers = {RAlt}, page = 7, id_u = 5\<rparr>, str_of ''B'')]"
proof -
  have run: "get_key_definitions ascii_lower ascii_lower
     [(\<lparr>modifiers = {}, page = 7, id_u = 4\<rparr>, str_of ''a''),
      (\<lparr>modifiers = {}, page = 7, id_u = 4\<rparr>, str_of ''b''),
      (\<lparr>modifiers = {LShift}, page = 7, id_u = 4\<rparr>, str_of ''A''),
      (\<lparr>modifiers = {RAlt}, page = 7, id_u = 5\<rparr>, str_of ''B''),
      (\<lparr>modifiers = {}, page = 7, id_u = 5\<rparr>, str_of ''b''),
      (\<lparr>modifiers = {RAlt}, page = 7, id_u = 6\<rparr>, str_of ''!''),
      (\<lparr>modifiers = {}, page = 7, id_u = 6\<rparr>, str_of ''!'')]
   = Inr [(\<lparr>modifiers = {}, page = 7, id_u = 6\<rparr>, str_of ''!''),
          (\<lparr>modifiers = {}, page = 7, id_u = 4\<rparr>, str_of ''a''),
          (\<lparr>modifiers = {}, page = 7, id_u = 5\<rparr>, str_of ''b''),
          (\<lparr>modifiers = {RAlt}, page = 7, id_u = 5\<rparr>, str_of ''B'')]"
    by (simp add: get_key_definitions_def dedupe_same_usage_def unique_def dedupe_uppercase_def
      is_duplicate_uppercase_def has_shift_def remove_shift_def dedupe_same_value_def
      group_by_value_def shortest_mods_def str_of_def ascii_lower_def)
  show ?thesis
    using get_key_definitions_idempotent [of ascii_lower ascii_lower
     "[(\<lparr>modifiers = {}, page = 7, id_u = 4\<rparr>, str_of ''a''),
      (\<lparr>modifiers = {}, page = 7, id_u = 4\<rparr>, str_of ''b''),
      (\<lparr>modifiers = {LShift}, page = 7, id_u = 4\<rparr>, str_of ''A''),
      (\<lparr>modifiers = {RAlt}, page = 7, id_u = 5\<rparr>, str_of ''B''),
      (\<lparr>modifiers = {}, page = 7, id_u = 5\<rparr>, str_of ''b''),
      (\<lparr>modifiers = {RAlt}, page = 7, id_u = 6\<rparr>, str_of ''!''),
      (\<lparr>modifiers = {}, page = 7, id_u = 6\<rparr>, str_of ''!'')]"]
    unfolding run by simp
qed

section \<open>Properties of the key-table lookup\<close>









text \<open>On a cyclic alias chain the call raises, whatever the stack allows.\<close>

lemma lookup_usage_cycle:
  "lookup_usage
     \<lparr>keys = [(str_of ''A'', KeyAlias (str_of ''B'')), (str_of ''B'', KeyAlias (str_of ''A''))],
      codepoint_names = Map.empty\<rparr> frames (str_of ''A'') = Inl RecursionError \<and>
   lookup_usage
     \<lparr>keys = [(str_of ''A'', KeyAlias (str_of ''B'')), (str_of ''B'', KeyAlias (str_of ''A''))],
      codepoint_names = Map.empty\<rparr> frames (str_of ''B'') = Inl RecursionError"
  by (induction frames) (simp_all add: str_of_def)







section \<open>Properties of name resolution and of the output loop\<close>

lemma get_key_names_absent:
  "codepoint_names self value = None \<Longrightarrow> get_key_names upper self locale value = (None, self)"
  by (simp add: get_key_names_def)

lemma write_definitions_frame:
  "io st = io st' \<Longrightarrow> gen st = gen st' \<Longrightarrow>
   io (fst (write_definitions upper str_usage locale defs st))
     = io (fst (write_definitions upper str_usage locale defs st')) \<and>
   gen (fst (write_definitions upper str_usage locale defs st))
     = gen (fst (write_definitions upper str_usage locale defs st')) \<and>
   snd (write_definitions upper str_usage locale defs st)
     = snd (write_definitions upper str_usage locale defs st')"
proof (induction defs arbitrary: st st')
  case Nil
  then show ?case by simp
next
  case (Cons d defs)
  obtain usage "value" where d: "d = (usage, value)" by (cases d)
  obtain names self' where g: "get_key_names upper (gen st') locale value = (names, self')"
    by (cases "get_key_names upper (gen st') locale value")
  show ?case
  proof (cases "\<exists>main aliases. names = Some (main # aliases)")
    case True
    then obtain main aliases where n: "names = Some (main # aliases)" by blast
    show ?thesis
      using Cons.prems by (simp add: d g n Cons.IH)
  next
    case False
    then have n: "names = None \<or> names = Some []"
      by (cases names) (simp, metis list.exhaust)
    show ?thesis
    proof (cases "py_ord value")
      case (Inl e)
      then show ?thesis using Cons.prems n by (auto simp: d g)
    next
      case (Inr cp)
      then show ?thesis using Cons.prems n by (auto simp: d g Cons.IH)
    qed
  qed
qed

text \<open>
  C9. Let the character \<open>c\<close> of a definition have no entry in the codepoint name
  table. Then \<open>_get_key_names\<close> returns \<open>None\<close> and leaves the generator as it is, and
  the loop of \<open>write_header\<close> goes on to the remaining definitions having written
  nothing and raised nothing, with one debug record added. What the whole loop writes,
  the generator it leaves and the exception it ends with (if any) are those of the
  loop over the remaining definitions alone.
\<close>

theorem write_definitions_skips_unnamed:
  assumes "codepoint_names (gen st) [c] = None"
  shows "get_key_names upper (gen st) locale [c] = (None, gen st) \<and>
         write_definitions upper str_usage locale ((usage, [c]) # defs) st
           = write_definitions upper str_usage locale defs
               (st\<lparr>debug := debug st @ [Skipped c [c] usage]\<rparr>) \<and>
         io (fst (write_definitions upper str_usage locale ((usage, [c]) # defs) st))
           = io (fst (write_definitions upper str_usage locale defs st)) \<and>
         gen (fst (write_definitions upper str_usage locale ((usage, [c]) # defs) st))
           = gen (fst (write_definitions upper str_usage locale defs st)) \<and>
         snd (write_definitions upper str_usage locale ((usage, [c]) # defs) st)
           = snd (write_definitions upper str_usage locale defs st)"
proof -
  let ?st' = "st\<lparr>debug := debug st @ [Skipped c [c] usage]\<rparr>"
  have g: "get_key_names upper (gen st) locale [c] = (None, gen st)"
    by (rule get_key_names_absent [OF assms])
  have step: "write_definitions upper str_usage locale ((usage, [c]) # defs) st
           = write_definitions upper str_usage locale defs ?st'"
    by (simp add: g py_ord_def)
  have "io ?st' = io st" and "gen ?st' = gen st" by simp_all
  from write_definitions_frame [OF this, of upper str_usage "locale" defs] g step
  show ?thesis by simp
qed

theorem write_definitions_skips_unnamed_witness:
  "write_definitions ascii_upper (\<lambda>u. str_of ''U'') (str_of ''de'')
     [(\<lparr>modifiers = {}, page = 7, id_u = 5\<rparr>, [223]),
      (\<lparr>modifiers = {}, page = 7, id_u = 4\<rparr>, str_of ''a'')]
     \<lparr>io = [], debug = [],
      gen = \<lparr>keys = [], codepoint_names = [str_of ''a'' \<mapsto> Name (str_of ''A'')]\<rparr>\<rparr>
   = (\<lparr>io = [[10], str_of ''#define DE_A (U)'' @ [10]],
       debug = [Skipped 223 [223] \<lparr>modifiers = {}, page = 7, id_u = 5\<rparr>],
       gen = \<lparr>keys = [], codepoint_names = [str_of ''a'' \<mapsto> Name (str_of ''A'')]\<rparr>\<rparr>,
      None)"
  using write_definitions_skips_unnamed [of
     "\<lparr>io = [], debug = [],
      gen = \<lparr>keys = [], codepoint_names = [str_of ''a'' \<mapsto> Name (str_of ''A'')]\<rparr>\<rparr>"
     223 ascii_upper "str_of ''de''" "\<lambda>u. str_of ''U''"
     "\<lparr>modifiers = {}, page = 7, id_u = 5\<rparr>" "[(\<lparr>modifiers = {}, page = 7, id_u = 4\<rparr>, str_of ''a'')]"]
  by (simp add: get_key_names_def fragments_def alias_names_def str_of_def ascii_upper_def)

lemma alias_names_filter:
  assumes "distinct (map fst (keys self))"
  shows "alias_names self names
     = filter (\<lambda>k. \<exists>t \<in> set names. map_of (keys self) k = Some (KeyAlias t))
         (map fst (keys self))"
proof -
  have "(case v of KeyAlias a \<Rightarrow> a \<in> set names | _ \<Rightarrow> False)
      = (\<exists>t \<in> set names. map_of (keys self) k = Some (KeyAlias t))"
    if "(k, v) \<in> set (keys self)" for k v
  proof -
    have "map_of (keys self) k = Some v" using assms that by simp
    then show ?thesis by (cases v) auto
  qed
  then have "filter (\<lambda>(k, v). case v of KeyAlias a \<Rightarrow> a \<in> set names | _ \<Rightarrow> False) (keys self)
      = filter (\<lambda>(k, v). \<exists>t \<in> set names. map_of (keys self) k = Some (KeyAlias t)) (keys self)"
    by (intro filter_cong) auto
  then show ?thesis
    by (simp add: alias_names_def filter_map comp_def case_prod_unfold)
qed

lemma get_key_names_table_after:
  "codepoint_names self value = Some (Name s) \<Longrightarrow>
     snd (get_key_names upper self locale value) = self"
  "codepoint_names self value = Some (Names l) \<Longrightarrow>
     snd (get_key_names upper self locale value)
       = self\<lparr>codepoint_names := (codepoint_names self)(value \<mapsto> Names (l @ alias_names self l))\<rparr>"
  by (simp_all add: get_key_names_def Let_def fragments_def)

lemma get_key_names_result:
  "codepoint_names self value = Some (Name s) \<Longrightarrow>
     fst (get_key_names upper self locale value)
       = Some (map (\<lambda>name. upper locale @ str_of ''_'' @ name) (s # alias_names self [s]))"
  "codepoint_names self value = Some (Names l) \<Longrightarrow>
     fst (get_key_names upper self locale value)
       = Some (map (\<lambda>name. upper locale @ str_of ''_'' @ name) (l @ alias_names self l))"
  by (simp_all add: get_key_names_def Let_def fragments_def)

text \<open>
  C10. The claim is that the names returned for a character are the fragments of its
  codepoint-table entry followed by exactly the key-table aliases whose target is one
  of these original fragments, and that an alias of an alias is never added. The code
  does otherwise when the entry is a list and the character is resolved a second time
  on the same generator: \<open>names += ...\<close> has extended the list of the table in place
  (\<open>get_key_names_table_after\<close>), so the second call finds the first-level alias among
  the fragments. With the entry \<open>['EURO']\<close> and the aliases \<open>EURO_SIGN\<close> of \<open>EURO\<close>
  and \<open>EUR\<close> of \<open>EURO_SIGN\<close>, the first call returns \<open>DE_EURO, DE_EURO_SIGN\<close> and the
  second \<open>DE_EURO, DE_EURO_SIGN, DE_EURO_SIGN, DE_EUR\<close>. The branch for a string
  entry builds a fresh list and has no such effect.
\<close>

theorem get_key_names_second_call:
  "fst (get_key_names ascii_upper
     \<lparr>keys = [(str_of ''EURO'', Usage \<lparr>modifiers = {RAlt}, page = 7, id_u = 8\<rparr>),
              (str_of ''EURO_SIGN'', KeyAlias (str_of ''EURO'')),
              (str_of ''EUR'', KeyAlias (str_of ''EURO_SIGN''))],
      codepoint_names = [[8364] \<mapsto> Names [str_of ''EURO'']]\<rparr>
     (str_of ''de'') [8364])
   = Some [str_of ''DE_EURO'', str_of ''DE_EURO_SIGN''] \<and>
   fst (get_key_names ascii_upper
     (snd (get_key_names ascii_upper
        \<lparr>keys = [(str_of ''EURO'', Usage \<lparr>modifiers = {RAlt}, page = 7, id_u = 8\<rparr>),
                 (str_of ''EURO_SIGN'', KeyAlias (str_of ''EURO'')),
                 (str_of ''EUR'', KeyAlias (str_of ''EURO_SIGN''))],
         codepoint_names = [[8364] \<mapsto> Names [str_of ''EURO'']]\<rparr>
        (str_of ''de'') [8364]))
     (str_of ''de'') [8364])
   = Some [str_of ''DE_EURO'', str_of ''DE_EURO_SIGN'', str_of ''DE_EURO_SIGN'',
           str_of ''DE_EUR'']"
  by (simp add: get_key_names_def fragments_def alias_names_def str_of_def ascii_upper_def)

end
